theory Spec2Isabelle
  imports Complex_Main "HOL-Library.Word"
begin

unbundle bit_operations_syntax

section \<open>Python values and faults\<close>

text \<open>
  Python integers are unbounded: they are \<open>int\<close>. Python's \<open>%\<close> and \<open>//\<close> round towards
  minus infinity, as \<open>mod\<close> and \<open>div\<close> on \<open>int\<close> do; they raise \<open>ZeroDivisionError\<close> on a
  zero divisor, where HOL returns a value, so every division that can meet a zero divisor
  is guarded in the model. A function that can raise returns \<open>py_error + 'a\<close>.
\<close>

datatype py_error = ZeroDivisionError | ValueError | TypeError

datatype py_value = PyBool bool | PyFloat real

section \<open>Cryptography/snippets.py\<close>

subsection \<open>gcd\<close>

text \<open>
  \<^verbatim>\<open>while b: a, b = b, a % b\<close> followed by \<^verbatim>\<open>return a\<close>. The remainder is only taken when
  \<open>b\<close> is not zero.
\<close>

function gcd_py :: "int \<Rightarrow> int \<Rightarrow> int" where
  "gcd_py a b = (if b \<noteq> 0 then gcd_py b (a mod b) else a)"
  by pat_completeness auto
termination
  by (relation "measure (\<lambda>(a, b). nat \<bar>b\<bar>)") (auto simp: abs_mod_less)

declare gcd_py.simps [simp del]

subsection \<open>bin\_pow\<close>

text \<open>
  The loop of \<open>bin_pow\<close> on the state \<open>(pwr, x, n)\<close>, where \<open>pwr\<close> is the source's
  \<open>power\<close> and \<open>m\<close> the source's \<open>mod\<close>. The modulus is not zero when the loop is
  entered, because \<^verbatim>\<open>x = x % mod\<close> ran before it. The value returned when the loop
  ends is \<^verbatim>\<open>power % mod\<close>.
\<close>

function bin_pow_loop :: "int \<Rightarrow> int \<Rightarrow> int \<Rightarrow> int \<Rightarrow> int" where
  "bin_pow_loop pwr x n m =
     (if n > 0 then
        (if n mod 2 \<noteq> 0 then bin_pow_loop ((pwr * x) mod m) x (n - 1) m
         else bin_pow_loop pwr ((x ^ 2) mod m) (n div 2) m)
      else pwr mod m)"
  by pat_completeness auto
termination
  by (relation "measure (\<lambda>(pwr, x, n, m). nat n)") auto

declare bin_pow_loop.simps [simp del]

definition bin_pow :: "int \<Rightarrow> int \<Rightarrow> int \<Rightarrow> py_error + int" where
  "bin_pow x n m =
     (if m = 0 then Inl ZeroDivisionError else Inr (bin_pow_loop 1 (x mod m) n m))"

subsection \<open>totient\<close>

text \<open>
  \<^verbatim>\<open>sum(gcd(i, n) == 1 for i in range(1, n))\<close>: the booleans are summed as 0 and 1 over
  the candidates \<open>1, \<dots>, n - 1\<close>.
\<close>

definition totient :: "int \<Rightarrow> int" where
  "totient n = sum_list (map (\<lambda>i. if gcd_py i n = 1 then 1 else 0) [1..n - 1])"

subsection \<open>is\_prime\<close>

text \<open>
  \<open>math.isqrt\<close> is the library's integer square root, the floor of the exact square root
  of a non-negative integer (it raises \<open>ValueError\<close> on a negative one; both callers below
  reach it only with \<open>num > 1\<close>). It is computed here digit by digit in base 2; lemma
  \<open>isqrt_bounds\<close> below shows that this is the floor of the square root.
\<close>

fun isqrt_nat :: "nat \<Rightarrow> nat" where
  "isqrt_nat n =
     (if n = 0 then 0
      else (let r = 2 * isqrt_nat (n div 4)
            in if (r + 1) * (r + 1) \<le> n then r + 1 else r))"

declare isqrt_nat.simps [simp del]

definition isqrt :: "int \<Rightarrow> int" where
  "isqrt n = int (isqrt_nat (nat n))"

text \<open>The \<^verbatim>\<open>for divisor in range(2, isqrt(num) + 1)\<close> loop, over the list of its divisors.\<close>

fun is_prime_loop :: "int \<Rightarrow> int list \<Rightarrow> bool" where
  "is_prime_loop num [] = True"
| "is_prime_loop num (divisor # rest) =
     (if num mod divisor = 0 then False else is_prime_loop num rest)"

definition is_prime :: "int \<Rightarrow> bool" where
  "is_prime num = (if num \<le> 1 then False else is_prime_loop num [2..isqrt num + 1 - 1])"

subsection \<open>is\_prime\_optimized\<close>

text \<open>
  The \<^verbatim>\<open>while divisor * divisor <= num\<close> loop together with the statement after it,
  \<^verbatim>\<open>return isqrt(num) ** 2 != num\<close>.
\<close>

function is_prime_optimized_loop :: "int \<Rightarrow> int \<Rightarrow> bool" where
  "is_prime_optimized_loop num divisor =
     (if divisor * divisor \<le> num then
        (if num mod (divisor - 1) = 0 \<or> num mod (divisor + 1) = 0 then False
         else is_prime_optimized_loop num (divisor + 6))
      else isqrt num ^ 2 \<noteq> num)"
  by pat_completeness auto
termination
proof (relation "measure (\<lambda>(num, divisor). nat (num + 1 - divisor))")
  show "wf (measure (\<lambda>(num, divisor). nat (num + 1 - divisor)))"
    by simp
next
  fix num divisor :: int
  assume le: "divisor * divisor \<le> num"
  have "divisor \<le> divisor * divisor"
    by (cases "divisor \<le> 0") (auto intro: order_trans [OF _ zero_le_square])
  with le have "divisor \<le> num" by simp
  then show "((num, divisor + 6), (num, divisor)) \<in> measure (\<lambda>(num, divisor). nat (num + 1 - divisor))"
    by simp
qed

declare is_prime_optimized_loop.simps [simp del]

definition is_prime_optimized :: "int \<Rightarrow> bool" where
  "is_prime_optimized num =
     (if num \<le> 1 then False
      else if num \<le> 3 then True
      else if num mod 2 = 0 \<or> num mod 3 = 0 then False
      else is_prime_optimized_loop num 6)"

text \<open>
  The function the specification proposes instead: the same code with the final return
  expression replaced by the constant \<open>True\<close>. Its loop returns \<open>True\<close> exactly when the
  source's loop reaches the final return statement.
\<close>

function final_true_loop :: "int \<Rightarrow> int \<Rightarrow> bool" where
  "final_true_loop num divisor =
     (if divisor * divisor \<le> num then
        (if num mod (divisor - 1) = 0 \<or> num mod (divisor + 1) = 0 then False
         else final_true_loop num (divisor + 6))
      else True)"
  by pat_completeness auto
termination
proof (relation "measure (\<lambda>(num, divisor). nat (num + 1 - divisor))")
  show "wf (measure (\<lambda>(num, divisor). nat (num + 1 - divisor)))"
    by simp
next
  fix num divisor :: int
  assume le: "divisor * divisor \<le> num"
  have "divisor \<le> divisor * divisor"
    by (cases "divisor \<le> 0") (auto intro: order_trans [OF _ zero_le_square])
  with le have "divisor \<le> num" by simp
  then show "((num, divisor + 6), (num, divisor)) \<in> measure (\<lambda>(num, divisor). nat (num + 1 - divisor))"
    by simp
qed

declare final_true_loop.simps [simp del]

definition is_prime_optimized_final_true :: "int \<Rightarrow> bool" where
  "is_prime_optimized_final_true num =
     (if num \<le> 1 then False
      else if num \<le> 3 then True
      else if num mod 2 = 0 \<or> num mod 3 = 0 then False
      else final_true_loop num 6)"

subsection \<open>fermat\_test\<close>

text \<open>
  The random source is a parameter: \<open>draws i\<close> is what the \<open>i\<close>-th call
  \<^verbatim>\<open>randint(2, n - 2)\<close> returns. \<open>randint\<close> raises \<open>ValueError\<close> on an empty range. The
  loop runs \<open>k\<close> more times from draw \<open>i\<close>.
\<close>

fun fermat_test_loop :: "int \<Rightarrow> (nat \<Rightarrow> int) \<Rightarrow> nat \<Rightarrow> nat \<Rightarrow> py_error + bool" where
  "fermat_test_loop n draws i 0 = Inr True"
| "fermat_test_loop n draws i (Suc k) =
     (if n - 2 < 2 then Inl ValueError
      else (case bin_pow (draws i) (n - 1) n of
              Inl e \<Rightarrow> Inl e
            | Inr p \<Rightarrow> if p \<noteq> 1 then Inr False else fermat_test_loop n draws (Suc i) k))"

definition fermat_test :: "int \<Rightarrow> int \<Rightarrow> (nat \<Rightarrow> int) \<Rightarrow> py_error + bool" where
  "fermat_test n n_repeats draws =
     (if n = 1 \<or> n AND 1 = 0 then Inr False
      else if n = 2 \<or> n = 3 then Inr True
      else fermat_test_loop n draws 0 (nat n_repeats))"

section \<open>Cryptography/practical\_task\_1.py\<close>

definition MOD :: int where
  "MOD = 10 ^ 9 + 7"

definition task2 :: "int \<Rightarrow> int" where
  "task2 a = a mod MOD"

definition task3 :: "int \<Rightarrow> int \<Rightarrow> py_error + int" where
  "task3 a b = bin_pow a b MOD"

definition task4 :: "int \<Rightarrow> int \<Rightarrow> py_error + int" where
  "task4 a b =
     (case bin_pow a (totient MOD - 1) MOD of
        Inl e \<Rightarrow> Inl e
      | Inr p \<Rightarrow> Inr ((b * p) mod MOD))"

text \<open>
  \<^verbatim>\<open>next((num for num in range(a, b + 1) if check_is_prime(num)), -1)\<close>: the first number
  of the range that passes the test, or \<open>-1\<close>. The default test is \<open>is_prime_optimized\<close>.
\<close>

definition task5 :: "int \<Rightarrow> int \<Rightarrow> (int \<Rightarrow> bool) \<Rightarrow> int" where
  "task5 a b check_is_prime =
     (case find check_is_prime [a..b + 1 - 1] of Some num \<Rightarrow> num | None \<Rightarrow> - 1)"

section \<open>Blockchain and Decentralized Technologies/large\_numbers.py\<close>

text \<open>
  \<^verbatim>\<open>2 ** bits\<close> is an integer for \<open>bits \<ge> 0\<close>. For a negative \<open>bits\<close> Python yields a
  float, which \<open>range\<close> then rejects with \<open>TypeError\<close>; \<open>brute_function\<close> holds that guard.
\<close>

definition get_number_of_keys :: "int \<Rightarrow> int" where
  "get_number_of_keys bits = 2 ^ nat bits"

text \<open>
  The built-in \<open>hex\<close>: the prefix \<open>0x\<close> (after the sign) and the lowercase hexadecimal
  digits of the magnitude, without leading zeros.
\<close>

definition hex_digit :: "nat \<Rightarrow> char" where
  "hex_digit d = ''0123456789abcdef'' ! d"

function hex_digits :: "nat \<Rightarrow> string" where
  "hex_digits n =
     (if n < 16 then [hex_digit n] else hex_digits (n div 16) @ [hex_digit (n mod 16)])"
  by pat_completeness auto
termination
  by (relation "measure id") auto

declare hex_digits.simps [simp del]

definition hex :: "int \<Rightarrow> string" where
  "hex i = (if i < 0 then ''-0x'' @ hex_digits (nat (- i)) else ''0x'' @ hex_digits (nat i))"

text \<open>
  \<open>secrets.token_hex(nbytes)\<close> renders \<open>nbytes\<close> random bytes with two hexadecimal digits
  each. The random source is a parameter: \<open>rnd i\<close> is the \<open>i\<close>-th byte drawn. A negative
  byte count raises \<open>ValueError\<close>.
\<close>

definition token_hex :: "nat \<Rightarrow> (nat \<Rightarrow> 8 word) \<Rightarrow> string" where
  "token_hex nbytes rnd =
     concat (map (\<lambda>i. [hex_digit (unat (rnd i) div 16), hex_digit (unat (rnd i) mod 16)])
       [0..<nbytes])"

definition get_secret_token :: "int \<Rightarrow> (nat \<Rightarrow> 8 word) \<Rightarrow> py_error + string" where
  "get_secret_token bits rnd =
     (if bits div 8 < 0 then Inl ValueError
      else Inr (''0x'' @ token_hex (nat (bits div 8)) rnd))"

text \<open>The body of \<open>brute\<close> as written, before the decorator is applied.\<close>

fun brute_loop :: "int list \<Rightarrow> string \<Rightarrow> bool" where
  "brute_loop [] secret = False"
| "brute_loop (candidate # rest) secret =
     (if hex candidate = secret then True else brute_loop rest secret)"

definition brute_function :: "int \<Rightarrow> string \<Rightarrow> py_error + py_value" where
  "brute_function bits secret =
     (if bits < 0 then Inl TypeError
      else Inr (PyBool (brute_loop [0..get_number_of_keys bits + 1 - 1] secret)))"

text \<open>
  The decorator \<open>return_time\<close>: \<open>wraps\<close> reads the clock, calls the function, drops what
  it returns and returns the difference of a second reading and the first. The two
  readings of \<open>time()\<close> are the parameter \<open>clock\<close>. An exception of the call propagates.
\<close>

definition return_time ::
  "('a \<Rightarrow> py_error + py_value) \<Rightarrow> real \<times> real \<Rightarrow> 'a \<Rightarrow> py_error + py_value" where
  "return_time func clock args =
     (let start = fst clock
      in case func args of
           Inl e \<Rightarrow> Inl e
         | Inr _ \<Rightarrow> Inr (PyFloat (snd clock - start)))"

text \<open>The module's name \<open>brute\<close> is bound to the decorated function.\<close>

definition brute :: "real \<times> real \<Rightarrow> int \<Rightarrow> string \<Rightarrow> py_error + py_value" where
  "brute clock bits secret =
     return_time (\<lambda>(bits, secret). brute_function bits secret) clock (bits, secret)"

text \<open>
  The numeric value of a secret, as \<^verbatim>\<open>int(secret, 16)\<close> reads it: the two characters of the
  prefix are dropped and the lowercase digits are read in base 16.
\<close>

definition hex_digit_value :: "char \<Rightarrow> int" where
  "hex_digit_value c = int (length (takeWhile (\<lambda>d. d \<noteq> c) ''0123456789abcdef''))"

definition hex_value :: "string \<Rightarrow> int" where
  "hex_value s = foldl (\<lambda>v c. 16 * v + hex_digit_value c) 0 (drop 2 s)"

section \<open>Properties of gcd\<close>

lemma gcd_py_zero: "gcd_py a 0 = a"
  by (simp add: gcd_py.simps)

lemma gcd_py_eq_gcd: "0 \<le> a \<Longrightarrow> 0 \<le> b \<Longrightarrow> gcd_py a b = gcd a b"
proof (induction a b rule: gcd_py.induct)
  case (1 a b)
  show ?case
  proof (cases "b = 0")
    case True
    with "1.prems" show ?thesis by (simp add: gcd_py.simps)
  next
    case False
    with "1.prems" have "0 \<le> a mod b" by simp
    with False "1.prems" have "gcd_py b (a mod b) = gcd b (a mod b)"
      by (intro "1.IH") auto
    also have "\<dots> = gcd a b"
      by (simp add: gcd.commute [of a b] gcd_red_int [symmetric])
    finally show ?thesis using False by (subst gcd_py.simps) simp
  qed
qed

text \<open>
  C8. For non-negative integers \<open>a\<close> and \<open>b\<close>, \<open>gcd(a, b)\<close> divides both, every common
  divisor is at most \<open>gcd(a, b)\<close> unless both operands are zero, and \<open>gcd(a, 0) = a\<close>.
\<close>

theorem gcd_py_greatest_common_divisor:
  assumes "0 \<le> a" and "0 \<le> b"
  shows "gcd_py a b dvd a \<and> gcd_py a b dvd b
    \<and> (\<not> (a = 0 \<and> b = 0) \<longrightarrow> (\<forall>d. d dvd a \<and> d dvd b \<longrightarrow> d \<le> gcd_py a b))
    \<and> gcd_py a 0 = a"
proof -
  have eq: "gcd_py a b = gcd a b"
    using assms by (rule gcd_py_eq_gcd)
  have "d \<le> gcd a b" if "\<not> (a = 0 \<and> b = 0)" and "d dvd a" and "d dvd b" for d
  proof -
    from that have "d dvd gcd a b" by simp
    moreover from that have "0 < gcd a b" by (simp add: gcd_pos_int)
    ultimately show ?thesis by (rule zdvd_imp_le)
  qed
  then show ?thesis
    by (simp add: eq gcd_py_zero)
qed

theorem gcd_py_greatest_common_divisor_witness:
  "(0::int) \<le> 12 \<and> (0::int) \<le> 18 \<and> gcd_py 12 18 = 6 \<and> gcd_py 12 18 dvd 12 \<and> gcd_py 12 18 dvd 18
    \<and> \<not> (\<exists>d. d dvd 12 \<and> d dvd 18 \<and> gcd_py 12 18 < d) \<and> gcd_py 12 0 = 12"
proof -
  have v: "gcd_py 12 18 = 6"
    by (simp add: gcd_py.simps)
  show ?thesis
    using gcd_py_greatest_common_divisor [of 12 18] v by (auto simp: not_less)
qed

section \<open>Properties of bin\_pow\<close>

lemma bin_pow_loop_eq:
  "0 \<le> n \<Longrightarrow> bin_pow_loop pwr x n m = (pwr * x ^ nat n) mod m"
proof (induction pwr x n m rule: bin_pow_loop.induct)
  case (1 pwr x n m)
  show ?case
  proof (cases "n > 0")
    case False
    with "1.prems" have "n = 0" by simp
    then show ?thesis by (subst bin_pow_loop.simps) simp
  next
    case pos: True
    show ?thesis
    proof (cases "n mod 2 \<noteq> 0")
      case True
      have n: "nat n = Suc (nat (n - 1))"
        using pos by simp
      have "bin_pow_loop pwr x n m = bin_pow_loop ((pwr * x) mod m) x (n - 1) m"
        using pos True by (subst bin_pow_loop.simps) simp
      also have "\<dots> = ((pwr * x) mod m * x ^ nat (n - 1)) mod m"
        using pos True by (intro "1.IH"(1)) auto
      also have "\<dots> = (pwr * x ^ nat n) mod m"
        unfolding n by (simp add: mod_simps mult.assoc)
      finally show ?thesis .
    next
      case False
      then have even: "n = 2 * (n div 2)" by presburger
      have n: "nat n = 2 * nat (n div 2)"
        using pos even by (simp add: nat_mult_distrib)
      have "bin_pow_loop pwr x n m = bin_pow_loop pwr ((x ^ 2) mod m) (n div 2) m"
        using pos False by (subst bin_pow_loop.simps) simp
      also have "\<dots> = (pwr * ((x ^ 2) mod m) ^ nat (n div 2)) mod m"
        using pos False by (intro "1.IH"(2)) auto
      also have "\<dots> = (pwr * (x ^ 2) ^ nat (n div 2)) mod m"
        by (metis mod_mult_right_eq power_mod)
      also have "\<dots> = (pwr * x ^ nat n) mod m"
        unfolding n by (simp add: power_mult)
      finally show ?thesis .
    qed
  qed
qed

lemma bin_pow_eq:
  "0 \<le> n \<Longrightarrow> m \<noteq> 0 \<Longrightarrow> bin_pow a n m = Inr (a ^ nat n mod m)"
  by (simp add: bin_pow_def bin_pow_loop_eq mod_simps)

text \<open>
  C3. For every integer \<open>a\<close>, exponent \<open>n \<ge> 0\<close> and modulus \<open>m \<ge> 1\<close>, \<open>bin_pow(a, n, m)\<close>
  returns \<open>a ^ n mod m\<close>; \<open>bin_pow(a, 0, m)\<close> is \<open>1 mod m\<close> and \<open>bin_pow(a, n, 1)\<close> is 0.
\<close>

theorem bin_pow_is_modular_power:
  assumes "0 \<le> n" and "1 \<le> m"
  shows "bin_pow a n m = Inr (a ^ nat n mod m)
    \<and> bin_pow a 0 m = Inr (1 mod m)
    \<and> bin_pow a n 1 = Inr 0"
  using assms by (simp add: bin_pow_eq)

theorem bin_pow_is_modular_power_witness:
  "(0::int) \<le> 5 \<and> (1::int) \<le> 7 \<and> bin_pow (- 3) 5 7 = Inr 2 \<and> bin_pow (- 3) 0 7 = Inr 1
    \<and> bin_pow (- 3) 5 1 = Inr 0"
  using bin_pow_is_modular_power [of 5 7 "- 3"] by simp

section \<open>Properties of totient\<close>

lemma sum_list_indicator:
  "sum_list (map (\<lambda>i. if P i then 1 else 0) xs) = int (length (filter P xs))"
  by (induction xs) auto

lemma totient_eq_card:
  assumes "1 \<le> n"
  shows "totient n = int (card {i. 1 \<le> i \<and> i \<le> n - 1 \<and> gcd i n = 1})"
proof -
  have "filter (\<lambda>i. gcd_py i n = 1) [1..n - 1] = filter (\<lambda>i. gcd i n = 1) [1..n - 1]"
    using assms by (intro filter_cong) (auto simp: gcd_py_eq_gcd)
  then have "totient n = int (length (filter (\<lambda>i. gcd i n = 1) [1..n - 1]))"
    by (simp add: totient_def sum_list_indicator)
  also have "length (filter (\<lambda>i. gcd i n = 1) [1..n - 1])
      = card (set (filter (\<lambda>i. gcd i n = 1) [1..n - 1]))"
    by (rule distinct_card [symmetric]) simp
  also have "set (filter (\<lambda>i. gcd i n = 1) [1..n - 1]) = {i. 1 \<le> i \<and> i \<le> n - 1 \<and> gcd i n = 1}"
    by auto
  finally show ?thesis .
qed

lemma totient_values: "totient 1 = 0" "totient 7 = 6" "totient 9 = 6"
  by (simp_all add: totient_def upto.simps gcd_py.simps)

text \<open>
  C9. For every \<open>n \<ge> 1\<close>, \<open>totient(n)\<close> is the number of integers \<open>i\<close> in \<open>[1, n - 1]\<close> with
  greatest common divisor 1 with \<open>n\<close>; \<open>totient(1) = 0\<close>, \<open>totient(7) = 6\<close>, \<open>totient(9) = 6\<close>.
\<close>

theorem totient_counts_coprimes:
  assumes "1 \<le> n"
  shows "totient n = int (card {i. 1 \<le> i \<and> i \<le> n - 1 \<and> gcd i n = 1})
    \<and> totient 1 = 0 \<and> totient 7 = 6 \<and> totient 9 = 6"
  using assms by (simp add: totient_eq_card totient_values)

theorem totient_counts_coprimes_witness:
  "(1::int) \<le> 9 \<and> totient 9 = int (card {i. 1 \<le> i \<and> i \<le> 9 - 1 \<and> gcd i (9::int) = 1})
    \<and> totient 9 = 6"
  using totient_counts_coprimes [of 9] by simp

section \<open>Euler's theorem and task4\<close>

text \<open>
  Euler's theorem for the set that \<open>totient\<close> counts: multiplication by a unit \<open>a\<close>
  permutes the residues coprime to \<open>n\<close>, so their product \<open>P\<close> satisfies
  \<open>a ^ k * P = P\<close> modulo \<open>n\<close>, and \<open>P\<close> can be cancelled.
\<close>

lemma units_finite: "finite {i::int. 1 \<le> i \<and> i \<le> n - 1 \<and> gcd i n = 1}"
  by (rule finite_subset [of _ "{1..n - 1}"]) auto

lemma units_mult_closed:
  fixes a n :: int
  assumes n: "1 < n" and a: "gcd a n = 1" and i: "gcd i n = 1"
  shows "1 \<le> (a * i) mod n \<and> (a * i) mod n \<le> n - 1 \<and> gcd ((a * i) mod n) n = 1"
proof -
  have "coprime a n" "coprime i n"
    using a i by (simp_all add: coprime_iff_gcd_eq_1)
  then have "coprime (a * i) n"
    by simp
  then have "coprime ((a * i) mod n) n"
    using n by simp
  then have g: "gcd ((a * i) mod n) n = 1"
    by (simp only: coprime_iff_gcd_eq_1)
  have "(a * i) mod n \<noteq> 0"
  proof
    assume "(a * i) mod n = 0"
    with g have "gcd 0 n = 1" by simp
    with n show False by simp
  qed
  moreover have "0 \<le> (a * i) mod n" "(a * i) mod n < n"
    using n by simp_all
  ultimately show ?thesis using g by simp
qed

lemma units_mult_inj:
  fixes a n :: int
  assumes n: "1 < n" and a: "gcd a n = 1"
    and i: "1 \<le> i" "i \<le> n - 1" and j: "1 \<le> j" "j \<le> n - 1"
    and eq: "(a * i) mod n = (a * j) mod n"
  shows "i = j"
proof -
  from eq have "n dvd a * i - a * j"
    by (simp add: mod_eq_dvd_iff)
  then have "n dvd a * (i - j)"
    by (simp add: right_diff_distrib)
  moreover have "coprime n a"
    using a by (simp add: coprime_iff_gcd_eq_1 gcd.commute)
  ultimately have d: "n dvd i - j"
    by (simp add: coprime_dvd_mult_right_iff)
  have "\<bar>i - j\<bar> < n"
    using i j by simp
  with d show ?thesis
    using zdvd_not_zless [of "\<bar>i - j\<bar>" n] by (cases "i = j") auto
qed

lemma euler_theorem:
  fixes a n :: int
  assumes n: "1 < n" and a: "gcd a n = 1"
  shows "a ^ card {i. 1 \<le> i \<and> i \<le> n - 1 \<and> gcd i n = 1} mod n = 1"
proof -
  define U where "U = {i::int. 1 \<le> i \<and> i \<le> n - 1 \<and> gcd i n = 1}"
  define f where "f i = (a * i) mod n" for i
  have fin: "finite U"
    unfolding U_def by (rule units_finite)
  have sub: "f ` U \<subseteq> U"
    using units_mult_closed [OF n a] by (auto simp: U_def f_def)
  have inj: "inj_on f U"
    by (rule inj_onI) (auto simp: U_def f_def intro: units_mult_inj [OF n a])
  have img: "f ` U = U"
    using fin sub inj by (rule endo_inj_surj)
  have "prod id U = prod id (f ` U)"
    by (simp add: img)
  also have "\<dots> = (\<Prod>i\<in>U. f i)"
    using inj by (simp add: prod.reindex)
  finally have "prod id U mod n = (\<Prod>i\<in>U. (a * i) mod n) mod n"
    by (simp add: f_def)
  also have "\<dots> = (\<Prod>i\<in>U. a * i) mod n"
    by (rule mod_prod_eq)
  also have "(\<Prod>i\<in>U. a * i) = a ^ card U * prod id U"
    by (simp add: prod.distrib)
  finally have "(a ^ card U * prod id U) mod n = (1 * prod id U) mod n"
    by simp
  then have "n dvd a ^ card U * prod id U - 1 * prod id U"
    by (simp only: mod_eq_dvd_iff)
  then have "n dvd (a ^ card U - 1) * prod id U"
    by (simp add: left_diff_distrib)
  moreover have "coprime n (prod id U)"
    by (rule prod_coprime_right) (auto simp: U_def coprime_iff_gcd_eq_1 gcd.commute)
  ultimately have "n dvd a ^ card U - 1"
    by (simp add: coprime_dvd_mult_left_iff)
  then have "a ^ card U mod n = 1 mod n"
    by (simp add: mod_eq_dvd_iff)
  with n show ?thesis
    by (simp add: U_def)
qed


lemma MOD_gt_1: "1 < MOD"
  by (simp add: MOD_def)

lemma totient_pos:
  assumes "1 < n"
  shows "1 \<le> card {i::int. 1 \<le> i \<and> i \<le> n - 1 \<and> gcd i n = 1}"
proof -
  have "{1::int} \<subseteq> {i. 1 \<le> i \<and> i \<le> n - 1 \<and> gcd i n = 1}"
    using assms by simp
  with units_finite have "card {1::int} \<le> card {i. 1 \<le> i \<and> i \<le> n - 1 \<and> gcd i n = 1}"
    by (rule card_mono)
  then show ?thesis by simp
qed

lemma task4_eq:
  assumes a: "gcd a MOD = 1"
  shows "task4 a b = Inr ((b * (a ^ (card {i. 1 \<le> i \<and> i \<le> MOD - 1 \<and> gcd i MOD = 1} - 1) mod MOD)) mod MOD)"
proof -
  define k where "k = card {i. 1 \<le> i \<and> i \<le> MOD - 1 \<and> gcd i MOD = 1}"
  have k: "1 \<le> k"
    unfolding k_def using MOD_gt_1 by (rule totient_pos)
  have t: "totient MOD = int k"
    unfolding k_def using MOD_gt_1 by (intro totient_eq_card) simp
  have "0 \<le> totient MOD - 1" "nat (totient MOD - 1) = k - 1"
    using k t by simp_all
  moreover have "MOD \<noteq> 0"
    using MOD_gt_1 by simp
  ultimately have "bin_pow a (totient MOD - 1) MOD = Inr (a ^ (k - 1) mod MOD)"
    by (simp add: bin_pow_eq)
  then show ?thesis
    by (simp add: task4_def k_def)
qed

text \<open>
  C7. For all integers \<open>a\<close> and \<open>b\<close> with \<open>gcd(a, 10^9 + 7) = 1\<close>, \<open>task4(a, b)\<close> returns an
  \<open>x\<close> with \<open>0 \<le> x < 10^9 + 7\<close> and \<open>a * x \<equiv> b\<close> modulo \<open>10^9 + 7\<close>.
\<close>

theorem task4_solves_congruence:
  assumes a: "gcd a MOD = 1"
  shows "\<exists>x. task4 a b = Inr x \<and> 0 \<le> x \<and> x < MOD \<and> (a * x) mod MOD = b mod MOD"
proof -
  define k where "k = card {i. 1 \<le> i \<and> i \<le> MOD - 1 \<and> gcd i MOD = 1}"
  define x where "x = (b * (a ^ (k - 1) mod MOD)) mod MOD"
  have k: "1 \<le> k"
    unfolding k_def using MOD_gt_1 by (rule totient_pos)
  have euler: "a ^ k mod MOD = 1"
    unfolding k_def using MOD_gt_1 a by (rule euler_theorem)
  have r: "task4 a b = Inr x"
    unfolding x_def k_def using a by (rule task4_eq)
  have bounds: "0 \<le> x" "x < MOD"
    using MOD_gt_1 by (simp_all add: x_def)
  have cong: "(a * x) mod MOD = b mod MOD"
  proof -
    have "(a * x) mod MOD = (a * (b * a ^ (k - 1))) mod MOD"
      unfolding x_def by (simp add: mod_simps)
    also have "a * (b * a ^ (k - 1)) = b * a ^ Suc (k - 1)"
      by simp
    also have "Suc (k - 1) = k"
      using k by simp
    also have "(b * a ^ k) mod MOD = (b * (a ^ k mod MOD)) mod MOD"
      by (simp add: mod_simps)
    also have "\<dots> = b mod MOD"
      by (simp add: euler)
    finally show ?thesis .
  qed
  from r bounds cong show ?thesis
    by (intro exI [of _ x] conjI)
qed


theorem task4_solves_congruence_witness:
  "gcd 2 MOD = 1
    \<and> (\<exists>x. task4 2 3 = Inr x \<and> 0 \<le> x \<and> x < MOD \<and> (2 * x) mod MOD = 3 mod MOD)"
proof -
  have g: "gcd 2 MOD = 1"
    by (simp add: MOD_def)
  show ?thesis
    using g task4_solves_congruence [OF g, of 3] by simp
qed

section \<open>Properties of the primality tests\<close>

lemma isqrt_nat_bounds: "isqrt_nat n * isqrt_nat n \<le> n \<and> n < (isqrt_nat n + 1) * (isqrt_nat n + 1)"
proof (induction n rule: isqrt_nat.induct)
  case (1 n)
  show ?case
  proof (cases "n = 0")
    case True
    then show ?thesis by (simp add: isqrt_nat.simps)
  next
    case False
    define s where "s = isqrt_nat (n div 4)"
    from False "1.IH" have lo: "s * s \<le> n div 4" and hi: "n div 4 < (s + 1) * (s + 1)"
      by (simp_all add: s_def)
    have a: "(2 * s) * (2 * s) \<le> n"
    proof -
      have "(2 * s) * (2 * s) = 4 * (s * s)" by simp
      also have "\<dots> \<le> 4 * (n div 4)" using lo by simp
      also have "\<dots> \<le> n" by simp
      finally show ?thesis .
    qed
    have b: "n < (2 * s + 2) * (2 * s + 2)"
    proof -
      have "n div 4 + 1 \<le> (s + 1) * (s + 1)" using hi by simp
      then have "4 * (n div 4 + 1) \<le> 4 * ((s + 1) * (s + 1))" by simp
      moreover have "n < 4 * (n div 4 + 1)" by presburger
      moreover have "4 * ((s + 1) * (s + 1)) = (2 * s + 2) * (2 * s + 2)" by simp
      ultimately show ?thesis by simp
    qed
    have eq: "isqrt_nat n = (if (2 * s + 1) * (2 * s + 1) \<le> n then 2 * s + 1 else 2 * s)"
      using False by (subst isqrt_nat.simps) (simp add: s_def Let_def)
    show ?thesis
    proof (cases "(2 * s + 1) * (2 * s + 1) \<le> n")
      case True
      with eq have "isqrt_nat n = 2 * s + 1" by simp
      with True b show ?thesis by simp
    next
      case False
      with eq have "isqrt_nat n = 2 * s" by simp
      with False a show ?thesis by simp
    qed
  qed
qed

lemma isqrt_bounds:
  assumes "0 \<le> n"
  shows "0 \<le> isqrt n \<and> isqrt n * isqrt n \<le> n \<and> n < (isqrt n + 1) * (isqrt n + 1)"
proof -
  define r where "r = isqrt_nat (nat n)"
  have "r * r \<le> nat n" "nat n < (r + 1) * (r + 1)"
    using isqrt_nat_bounds [of "nat n"] by (simp_all add: r_def)
  then have "int (r * r) \<le> n" "n < int ((r + 1) * (r + 1))"
    using assms by linarith+
  then show ?thesis
    by (simp add: isqrt_def r_def [symmetric] algebra_simps)
qed


lemma is_prime_optimized_loop_split:
  "is_prime_optimized_loop num divisor = (final_true_loop num divisor \<and> isqrt num ^ 2 \<noteq> num)"
proof (induction num divisor rule: is_prime_optimized_loop.induct)
  case (1 num divisor)
  show ?case
  proof (cases "divisor * divisor \<le> num")
    case False
    then show ?thesis
      by (subst is_prime_optimized_loop.simps, subst final_true_loop.simps) simp
  next
    case le: True
    show ?thesis
    proof (cases "num mod (divisor - 1) = 0 \<or> num mod (divisor + 1) = 0")
      case True
      with le show ?thesis
        by (subst is_prime_optimized_loop.simps, subst final_true_loop.simps) simp
    next
      case False
      with le have "is_prime_optimized_loop num divisor = is_prime_optimized_loop num (divisor + 6)"
        by (subst is_prime_optimized_loop.simps) simp
      moreover from le False have "final_true_loop num divisor = final_true_loop num (divisor + 6)"
        by (subst final_true_loop.simps) simp
      ultimately show ?thesis
        using "1.IH" [OF le False] by simp
    qed
  qed
qed

lemma final_true_loop_tested:
  assumes "final_true_loop num d0" and "0 \<le> d0" and "d0 \<le> d" and "(d - d0) mod 6 = 0"
    and "d * d \<le> num"
  shows "num mod (d - 1) \<noteq> 0 \<and> num mod (d + 1) \<noteq> 0"
  using assms
proof (induction num d0 rule: final_true_loop.induct)
  case (1 num d0)
  have "d0 * d0 \<le> d * d"
    using "1.prems"(2,3) by (intro mult_mono) auto
  with "1.prems"(5) have le: "d0 * d0 \<le> num" by simp
  with "1.prems"(1) have nd: "\<not> (num mod (d0 - 1) = 0 \<or> num mod (d0 + 1) = 0)"
    and next_loop: "final_true_loop num (d0 + 6)"
    by (subst (asm) final_true_loop.simps, simp split: if_splits)+
  show ?case
  proof (cases "d = d0")
    case True
    with nd show ?thesis by simp
  next
    case False
    with "1.prems"(3,4) have "d0 + 6 \<le> d" "(d - (d0 + 6)) mod 6 = 0"
      by presburger+
    with "1.IH" [OF le nd next_loop] "1.prems"(2,5) show ?thesis
      by simp
  qed
qed

lemma square_at_final_return:
  assumes big: "3 < num" and odd: "num mod 2 \<noteq> 0" and three: "num mod 3 \<noteq> 0"
    and loop: "final_true_loop num 6" and sq: "isqrt num ^ 2 = num"
  shows "isqrt num mod 6 = 5"
proof -
  define r where "r = isqrt num"
  have r0: "0 \<le> r"
    using big isqrt_bounds [of num] by (simp add: r_def)
  have rr: "r * r = num"
    using sq by (simp add: r_def power2_eq_square)
  have "r mod 2 \<noteq> 0"
  proof
    assume "r mod 2 = 0"
    then have "2 dvd r * r" by (simp add: dvd_eq_mod_eq_0 [symmetric])
    with rr odd show False by (simp add: dvd_eq_mod_eq_0)
  qed
  moreover have "r mod 3 \<noteq> 0"
  proof
    assume "r mod 3 = 0"
    then have "3 dvd r * r" by (simp add: dvd_eq_mod_eq_0 [symmetric])
    with rr three show False by (simp add: dvd_eq_mod_eq_0)
  qed
  ultimately have cases: "r mod 6 = 1 \<or> r mod 6 = 5"
    by presburger
  have "r mod 6 \<noteq> 1"
  proof
    assume one: "r mod 6 = 1"
    have "r \<noteq> 1"
      using rr big by auto
    with one r0 have r7: "7 \<le> r" by presburger
    have "(r - 1) * (r - 1) \<le> r * r"
      using r7 by (intro mult_mono) auto
    with rr have "(r - 1) * (r - 1) \<le> num" by simp
    moreover have "((r - 1) - 6) mod 6 = 0"
      using one by presburger
    ultimately have "num mod ((r - 1) + 1) \<noteq> 0"
      using final_true_loop_tested [OF loop, of "r - 1"] r7 by simp
    then have "(r * r) mod r \<noteq> 0"
      by (simp add: rr)
    then show False by simp
  qed
  with cases show ?thesis by (simp add: r_def)
qed

lemma is_prime_optimized_values:
  "is_prime 2" "is_prime 3" "is_prime 5" "is_prime 997"
  "\<not> is_prime 1" "\<not> is_prime 4" "\<not> is_prime 100" "\<not> is_prime 1000"
  "is_prime_optimized 2" "is_prime_optimized 3" "is_prime_optimized 5" "is_prime_optimized 997"
  "\<not> is_prime_optimized 1" "\<not> is_prime_optimized 4" "\<not> is_prime_optimized 100"
  "\<not> is_prime_optimized 1000"
  by code_simp+

text \<open>
  C1. \<open>is_prime\<close> and \<open>is_prime_optimized\<close> are to agree on \<open>[0, 10000]\<close>. They do not:
  \<open>35 = 5 * 7\<close> is rejected by \<open>is_prime\<close> and accepted by \<open>is_prime_optimized\<close>, whose loop
  stops at \<open>6 * 6 > 35\<close> before it has tried the divisor \<open>6 - 1\<close>.
\<close>

theorem is_prime_optimized_accepts_35:
  "is_prime 35 = False \<and> is_prime_optimized 35 = True \<and> (35::int) = 5 * 7"
  by code_simp

text \<open>
  C4. The final comparison of \<open>is_prime_optimized\<close> is not redundant: \<open>25\<close> reaches the
  final return statement and is a perfect square, so the constant \<open>True\<close> there changes the
  result.
\<close>

theorem final_comparison_needed_at_25:
  "3 < (25::int) \<and> (25::int) mod 2 \<noteq> 0 \<and> (25::int) mod 3 \<noteq> 0 \<and> final_true_loop 25 6
    \<and> isqrt 25 ^ 2 = 25
    \<and> is_prime_optimized 25 = False \<and> is_prime_optimized_final_true 25 = True"
  by code_simp

text \<open>
  C4, as amended. The constant \<open>True\<close> in place of the final return expression changes the
  result only on a perfect square whose root is congruent to 5 modulo 6, and there from
  \<open>False\<close> to \<open>True\<close>; on every other input the result is unchanged.
\<close>

theorem final_comparison_changes_only_squares:
  assumes "is_prime_optimized_final_true num \<noteq> is_prime_optimized num"
  shows "is_prime_optimized_final_true num \<and> \<not> is_prime_optimized num
    \<and> isqrt num ^ 2 = num \<and> isqrt num mod 6 = 5"
proof -
  from assms have guards: "3 < num" "num mod 2 \<noteq> 0" "num mod 3 \<noteq> 0"
    by (auto simp: is_prime_optimized_final_true_def is_prime_optimized_def split: if_splits)
  then have opt: "is_prime_optimized num = (final_true_loop num 6 \<and> isqrt num ^ 2 \<noteq> num)"
    and fin: "is_prime_optimized_final_true num = final_true_loop num 6"
    by (simp_all add: is_prime_optimized_def is_prime_optimized_final_true_def
        is_prime_optimized_loop_split)
  from assms opt fin have loop: "final_true_loop num 6" and sq: "isqrt num ^ 2 = num"
    by auto
  from guards loop sq have "isqrt num mod 6 = 5"
    by (rule square_at_final_return)
  with opt fin loop sq show ?thesis by simp
qed

theorem final_comparison_changes_only_squares_witness:
  "is_prime_optimized_final_true 121 \<noteq> is_prime_optimized 121
    \<and> is_prime_optimized_final_true 121 \<and> \<not> is_prime_optimized 121
    \<and> isqrt 121 ^ 2 = 121 \<and> isqrt 121 mod 6 = 5"
proof -
  have h: "is_prime_optimized_final_true 121 \<noteq> is_prime_optimized 121"
    by code_simp
  show ?thesis
    using h final_comparison_changes_only_squares [OF h] by simp
qed

lemma task5_values:
  "task5 24 28 is_prime_optimized = - 1" "task5 24 29 is_prime_optimized = 29"
  by code_simp+

text \<open>
  C6. \<open>task5(a, b)\<close> is to return the smallest prime of \<open>[a, b]\<close>, or \<open>-1\<close>. The interval
  \<open>[35, 36]\<close> holds no prime (\<open>35 = 5 * 7\<close>, \<open>36 = 6 * 6\<close>), and \<open>task5(35, 36)\<close> returns 35.
\<close>

theorem task5_returns_composite_35:
  "task5 35 36 is_prime_optimized = 35 \<and> (35::int) = 5 * 7 \<and> (36::int) = 6 * 6"
  by code_simp

lemma fermat_test_3: "fermat_test 3 50 draws = Inr True"
  by (simp add: fermat_test_def)

text \<open>
  C2. \<open>fermat_test(n, 50)\<close> is to return true for the primes 2, 3 and 7919 whatever the
  draws. For \<open>n = 2\<close> it returns false: the test for even numbers comes before the base
  case \<open>n == 2\<close>.
\<close>

theorem fermat_test_rejects_2: "fermat_test 2 50 draws = Inr False"
  by (simp add: fermat_test_def)

section \<open>Properties of hex, the secret tokens and brute\<close>

lemma hex_digit_round_trip_all:
  "\<forall>d\<in>set [0..<16]. hex_digit_value (hex_digit d) = int d \<and> (hex_digit d = CHR ''0'') = (d = 0)"
  by code_simp

lemma hex_digit_value_hex_digit: "d < 16 \<Longrightarrow> hex_digit_value (hex_digit d) = int d"
  using hex_digit_round_trip_all by simp

lemma hex_digit_eq_zero: "d < 16 \<Longrightarrow> (hex_digit d = CHR ''0'') = (d = 0)"
  using hex_digit_round_trip_all by simp

lemma hex_digits_not_Nil: "hex_digits n \<noteq> []"
  by (subst hex_digits.simps) simp

lemma hex_digits_leading_zero:
  "hex_digits n = CHR ''0'' # rest \<Longrightarrow> n = 0 \<and> rest = []"
proof (induction n arbitrary: rest rule: hex_digits.induct)
  case (1 n)
  show ?case
  proof (cases "n < 16")
    case True
    with "1.prems" show ?thesis
      by (subst (asm) hex_digits.simps) (simp add: hex_digit_eq_zero)
  next
    case False
    obtain x xs where ds: "hex_digits (n div 16) = x # xs"
      using hex_digits_not_Nil [of "n div 16"] by (cases "hex_digits (n div 16)") auto
    from False "1.prems" have "hex_digits (n div 16) @ [hex_digit (n mod 16)] = CHR ''0'' # rest"
      by (subst (asm) hex_digits.simps) simp
    with ds have "x = CHR ''0''" by simp
    with ds "1.IH" [OF False] have "n div 16 = 0" by simp
    with False show ?thesis by simp
  qed
qed

lemma hex_never_leading_zero: "hex c \<noteq> ''0x'' @ CHR ''0'' # d # ds"
proof
  assume eq: "hex c = ''0x'' @ CHR ''0'' # d # ds"
  show False
  proof (cases "c < 0")
    case True
    with eq show False by (simp add: hex_def)
  next
    case False
    with eq have "hex_digits (nat c) = CHR ''0'' # d # ds"
      by (simp add: hex_def)
    then show False
      by (auto dest: hex_digits_leading_zero)
  qed
qed

lemma foldl_hex_digits:
  "foldl (\<lambda>v c. 16 * v + hex_digit_value c) v (hex_digits n)
     = v * 16 ^ length (hex_digits n) + int n"
proof (induction n arbitrary: v rule: hex_digits.induct)
  case (1 n)
  show ?case
  proof (cases "n < 16")
    case True
    then show ?thesis
      by (subst (1 2) hex_digits.simps) (simp add: hex_digit_value_hex_digit)
  next
    case False
    have s: "hex_digits n = hex_digits (n div 16) @ [hex_digit (n mod 16)]"
      using False by (subst hex_digits.simps) simp
    have "int n = 16 * int (n div 16) + int (n mod 16)"
      by (simp add: zdiv_int zmod_int)
    with "1.IH" [OF False, of v] show ?thesis
      by (simp add: s hex_digit_value_hex_digit algebra_simps)
  qed
qed

lemma hex_value_hex: "0 \<le> c \<Longrightarrow> hex_value (hex c) = c"
  by (simp add: hex_value_def hex_def foldl_hex_digits)

lemma token_hex_Suc:
  "token_hex (Suc n) rnd
     = token_hex n rnd @ [hex_digit (unat (rnd n) div 16), hex_digit (unat (rnd n) mod 16)]"
  by (simp add: token_hex_def)

lemma token_hex_first:
  "0 < n \<Longrightarrow> \<exists>d ds. token_hex n rnd = hex_digit (unat (rnd 0) div 16) # d # ds"
  by (simp add: token_hex_def upt_conv_Cons)

lemma foldl_token_hex:
  "0 \<le> v \<Longrightarrow>
     0 \<le> foldl (\<lambda>v c. 16 * v + hex_digit_value c) v (token_hex n rnd)
     \<and> foldl (\<lambda>v c. 16 * v + hex_digit_value c) v (token_hex n rnd) < (v + 1) * 256 ^ n"
proof (induction n)
  case 0
  then show ?case by (simp add: token_hex_def)
next
  case (Suc n)
  define w where "w = foldl (\<lambda>v c. 16 * v + hex_digit_value c) v (token_hex n rnd)"
  define hi where "hi = unat (rnd n) div 16"
  define lo where "lo = unat (rnd n) mod 16"
  have "unat (rnd n) < 256"
    using unsigned_less [of "rnd n", where ?'a = nat] by simp
  then have hi: "hi < 16" and lo: "lo < 16"
    by (simp_all add: hi_def lo_def)
  from Suc have w: "0 \<le> w" "w + 1 \<le> (v + 1) * 256 ^ n"
    by (simp_all add: w_def)
  have step: "foldl (\<lambda>v c. 16 * v + hex_digit_value c) v (token_hex (Suc n) rnd)
      = 256 * w + 16 * int hi + int lo"
    using hi lo by (simp add: token_hex_Suc w_def hi_def lo_def hex_digit_value_hex_digit)
  have "256 * w + 16 * int hi + int lo < 256 * (w + 1)"
    using hi lo by simp
  also have "\<dots> \<le> 256 * ((v + 1) * 256 ^ n)"
    using w(2) by simp
  finally have "256 * w + 16 * int hi + int lo < (v + 1) * 256 ^ Suc n"
    by simp
  with w(1) step show ?case by simp
qed

lemma hex_value_token:
  "0 \<le> hex_value (''0x'' @ token_hex n rnd) \<and> hex_value (''0x'' @ token_hex n rnd) < 256 ^ n"
  using foldl_token_hex [of 0 n rnd] by (simp add: hex_value_def)

lemma brute_loop_iff: "brute_loop cs secret = (\<exists>c\<in>set cs. hex c = secret)"
  by (induction cs) auto

lemma brute_loop_find: "brute_loop cs secret = (find (\<lambda>c. hex c = secret) cs \<noteq> None)"
  by (induction cs) auto


lemma brute_function_eq:
  "0 \<le> bits \<Longrightarrow>
     brute_function bits secret
       = Inr (PyBool (find (\<lambda>c. hex c = secret) [0..2 ^ nat bits] \<noteq> None))"
  by (simp add: brute_function_def get_number_of_keys_def brute_loop_find)

lemma find_upto_iff:
  "(find (\<lambda>c. hex c = secret) [0..n] \<noteq> None) = (\<exists>c. 0 \<le> c \<and> c \<le> n \<and> hex c = secret)"
  by (auto simp: find_None_iff)

lemma brute_eq:
  "0 \<le> bits \<Longrightarrow> brute clock bits secret = Inr (PyFloat (snd clock - fst clock))"
  by (simp add: brute_def return_time_def brute_function_def)

text \<open>
  C5. \<open>brute(bits, secret)\<close> is to return true upon the first candidate whose hexadecimal
  rendering is the secret. It does not: the candidate 5 renders as the secret \<open>0x5\<close>, and
  the call returns the elapsed time, here the float \<open>1\<close>, not the boolean.
\<close>

theorem brute_returns_elapsed_time:
  "0 \<le> (5::int) \<and> (5::int) \<le> 2 ^ 8 \<and> hex 5 = ''0x5''
    \<and> brute (0, 1) 8 ''0x5'' = Inr (PyFloat 1)
    \<and> brute (0, 1) 8 ''0x5'' \<noteq> Inr (PyBool True)"
  by (simp add: brute_eq hex_def hex_digits.simps hex_digit_def)

text \<open>
  C5, as amended. For \<open>bits \<ge> 0\<close> the function that \<open>brute\<close> wraps searches the candidates
  \<open>0, 1, \<dots>, 2 ^ bits\<close> in increasing order for the first one whose hexadecimal rendering
  is the secret, and returns true when there is one and false when no candidate of the
  range matches; \<open>brute\<close> itself, being decorated with \<open>return_time\<close>, drops that boolean
  and returns the difference of the two clock readings.
\<close>

theorem brute_function_searches_full_range:
  assumes "0 \<le> bits"
  shows "brute_function bits secret
      = Inr (PyBool (find (\<lambda>c. hex c = secret) [0..2 ^ nat bits] \<noteq> None))
    \<and> (find (\<lambda>c. hex c = secret) [0..2 ^ nat bits] \<noteq> None)
      = (\<exists>c. 0 \<le> c \<and> c \<le> 2 ^ nat bits \<and> hex c = secret)
    \<and> brute clock bits secret = Inr (PyFloat (snd clock - fst clock))"
  using assms by (simp only: brute_function_eq find_upto_iff brute_eq simp_thms)

theorem brute_function_searches_full_range_witness:
  "(0::int) \<le> 4 \<and> brute_function 4 ''0x5'' = Inr (PyBool True)
    \<and> brute_function 4 ''0x11'' = Inr (PyBool False)
    \<and> find (\<lambda>c. hex c = ''0x5'') [0..2 ^ nat 4] = Some 5
    \<and> brute (0, 1) 4 ''0x5'' = Inr (PyFloat 1)"
proof -
  have a: "brute_function 4 ''0x5'' = Inr (PyBool True)"
    "brute_function 4 ''0x11'' = Inr (PyBool False)"
    "find (\<lambda>c. hex c = ''0x5'') [0..2 ^ nat 4] = Some 5"
    by code_simp+
  show ?thesis
    using brute_function_searches_full_range [of 4 "''0x5''" "(0, 1)"] a by simp
qed

text \<open>
  C10. A token that \<open>get_secret_token(bits)\<close> can return and whose first hexadecimal digit
  is \<open>0\<close> (\<open>bits \<ge> 8\<close>, the first random byte below 16) is the rendering of no integer:
  the search of \<open>brute\<close> finds no match, although the numeric value of the token lies in
  the searched range \<open>[0, 2 ^ bits]\<close>.
\<close>

theorem leading_zero_token_never_found:
  assumes bits: "8 \<le> bits" and zero: "unat (rnd 0) < 16"
  shows "\<exists>secret. get_secret_token bits rnd = Inr secret
    \<and> take 3 secret = ''0x0''
    \<and> (\<forall>c. hex c \<noteq> secret)
    \<and> brute_function bits secret = Inr (PyBool False)
    \<and> 0 \<le> hex_value secret \<and> hex_value secret \<le> 2 ^ nat bits"
proof -
  define n where "n = nat (bits div 8)"
  define secret where "secret = ''0x'' @ token_hex n rnd"
  have n: "0 < n"
    using bits by (simp add: n_def)
  have tok: "get_secret_token bits rnd = Inr secret"
    using bits by (simp add: get_secret_token_def secret_def n_def)
  have "unat (rnd 0) div 16 = 0"
    using zero by simp
  with token_hex_first [OF n, of rnd] obtain d ds
    where shape: "secret = ''0x'' @ CHR ''0'' # d # ds"
    by (auto simp: secret_def hex_digit_eq_zero)
  have never: "hex c \<noteq> secret" for c
    unfolding shape by (rule hex_never_leading_zero)
  have search: "brute_function bits secret = Inr (PyBool False)"
    using bits never by (simp add: brute_function_def brute_loop_iff)
  have "8 * n \<le> nat bits"
    using bits by (simp add: n_def)
  then have "(2::int) ^ (8 * n) \<le> 2 ^ nat bits"
    by (intro power_increasing) simp_all
  moreover have "(2::int) ^ (8 * n) = 256 ^ n"
    by (simp add: power_mult)
  ultimately have "hex_value secret \<le> 2 ^ nat bits" "0 \<le> hex_value secret"
    using hex_value_token [of n rnd] by (simp_all add: secret_def)
  with tok never search show ?thesis
    by (intro exI [of _ secret]) (simp add: shape)
qed

theorem leading_zero_token_never_found_witness:
  "(8::int) \<le> 8 \<and> unat (10 :: 8 word) < 16
    \<and> get_secret_token 8 (\<lambda>i. 10) = Inr ''0x0a''
    \<and> (\<forall>c. hex c \<noteq> ''0x0a'')
    \<and> brute_function 8 ''0x0a'' = Inr (PyBool False)
    \<and> hex_value ''0x0a'' = 10 \<and> hex_value ''0x0a'' \<le> 2 ^ nat 8"
proof -
  have t: "get_secret_token 8 (\<lambda>i. 10) = Inr ''0x0a''" "hex_value ''0x0a'' = 10"
    by code_simp+
  show ?thesis
    using leading_zero_token_never_found [of 8 "\<lambda>i. 10"] t by simp
qed

section \<open>What the primality tests do get right\<close>

text \<open>
  The sibling test \<open>is_prime\<close> is right: it accepts exactly the integers above 1 that have
  no divisor strictly between 1 and themselves.
\<close>

lemma is_prime_loop_iff: "is_prime_loop num ds = (\<forall>d\<in>set ds. num mod d \<noteq> 0)"
  by (induction ds) auto

lemma le_isqrt_iff:
  assumes "0 \<le> n" and "0 \<le> d"
  shows "d \<le> isqrt n \<longleftrightarrow> d * d \<le> n"
proof
  assume "d \<le> isqrt n"
  with assms have "d * d \<le> isqrt n * isqrt n"
    by (intro mult_mono) auto
  with isqrt_bounds [OF assms(1)] show "d * d \<le> n" by simp
next
  assume dd: "d * d \<le> n"
  show "d \<le> isqrt n"
  proof (rule ccontr)
    assume "\<not> d \<le> isqrt n"
    then have "isqrt n + 1 \<le> d" by simp
    with isqrt_bounds [OF assms(1)] have "(isqrt n + 1) * (isqrt n + 1) \<le> d * d"
      by (intro mult_mono) auto
    with dd isqrt_bounds [OF assms(1)] show False by simp
  qed
qed

lemma isqrt_eqI:
  assumes "0 \<le> r" and "r * r \<le> n" and "n < (r + 1) * (r + 1)"
  shows "isqrt n = r"
proof -
  have n: "0 \<le> n"
    using assms(1,2) by (meson mult_nonneg_nonneg order_trans)
  have "r \<le> isqrt n"
    using assms(1,2) n by (simp add: le_isqrt_iff)
  moreover have "\<not> r + 1 \<le> isqrt n"
    using assms(1,3) n by (simp add: le_isqrt_iff)
  ultimately show ?thesis by simp
qed

lemma is_prime_iff:
  "is_prime num \<longleftrightarrow> 1 < num \<and> (\<forall>d. 1 < d \<and> d < num \<longrightarrow> \<not> d dvd num)"
proof (cases "1 < num")
  case False
  then show ?thesis by (simp add: is_prime_def)
next
  case True
  then have num0: "0 \<le> num" by simp
  have loop: "is_prime num \<longleftrightarrow> (\<forall>d. 2 \<le> d \<and> d * d \<le> num \<longrightarrow> \<not> d dvd num)"
    using True le_isqrt_iff [OF num0]
    by (auto simp: is_prime_def is_prime_loop_iff dvd_eq_mod_eq_0)
  have "(\<forall>d. 2 \<le> d \<and> d * d \<le> num \<longrightarrow> \<not> d dvd num)
      \<longleftrightarrow> (\<forall>d. 1 < d \<and> d < num \<longrightarrow> \<not> d dvd num)"
  proof (intro iffI allI impI)
    fix d
    assume small: "\<forall>d. 2 \<le> d \<and> d * d \<le> num \<longrightarrow> \<not> d dvd num" and d: "1 < d \<and> d < num"
    show "\<not> d dvd num"
    proof
      assume "d dvd num"
      then obtain e where e: "num = d * e" by (auto simp: dvd_def)
      have "0 < d * e" using e True by simp
      with d have "0 < e" by (simp add: zero_less_mult_iff)
      moreover have "e \<noteq> 1" using e d by auto
      ultimately have e1: "1 < e" by simp
      have key: "\<not> (2 \<le> c \<and> c * c \<le> num \<and> c dvd num)" for c
        using small by blast
      show False
      proof (cases "d \<le> e")
        case True
        with d have "d * d \<le> d * e" by (intro mult_left_mono) auto
        then have "2 \<le> d \<and> d * d \<le> num \<and> d dvd num"
          using d e by simp
        with key show False by blast
      next
        case False
        with e1 have "e * e \<le> d * e" by (intro mult_right_mono) auto
        then have "2 \<le> e \<and> e * e \<le> num \<and> e dvd num"
          using e1 e by simp
        with key show False by blast
      qed
    qed
  next
    fix d
    assume all: "\<forall>d. 1 < d \<and> d < num \<longrightarrow> \<not> d dvd num" and d: "2 \<le> d \<and> d * d \<le> num"
    then have "d * 2 \<le> d * d"
      by (intro mult_left_mono) auto
    with d have "d < num" by linarith
    with all d show "\<not> d dvd num" by simp
  qed
  with loop True show ?thesis by simp
qed


text \<open>
  Apart from \<open>n = 2\<close>, \<open>fermat_test\<close> does accept every prime: for a prime \<open>n \<ge> 5\<close> and draws
  in \<open>[2, n - 2]\<close> each round computes \<open>a ^ (n - 1) mod n = 1\<close>.
\<close>

lemma is_prime_coprime:
  assumes p: "is_prime n" and i: "1 \<le> i" "i \<le> n - 1"
  shows "gcd i n = 1"
proof -
  define g where "g = gcd i n"
  have "g dvd i" "g dvd n" by (simp_all add: g_def)
  have "0 < g" using i by (simp add: g_def gcd_pos_int)
  have "g \<le> i" using \<open>g dvd i\<close> i by (intro zdvd_imp_le) auto
  with i have "g < n" by simp
  with p \<open>g dvd n\<close> have "\<not> 1 < g" by (auto simp: is_prime_iff)
  with \<open>0 < g\<close> have "g = 1" by linarith
  then show ?thesis unfolding g_def .
qed

lemma fermat_little:
  assumes p: "is_prime n" and a: "gcd a n = 1"
  shows "a ^ nat (n - 1) mod n = 1"
proof -
  from p have n: "1 < n" by (simp add: is_prime_iff)
  have "{i. 1 \<le> i \<and> i \<le> n - 1 \<and> gcd i n = 1} = {1..n - 1}"
    using is_prime_coprime [OF p] by auto
  then have "card {i. 1 \<le> i \<and> i \<le> n - 1 \<and> gcd i n = 1} = nat (n - 1)"
    by simp
  with euler_theorem [OF n a] show ?thesis by simp
qed

lemma fermat_test_loop_prime:
  assumes p: "is_prime n" and n: "5 \<le> n" and draws: "\<And>i. 2 \<le> draws i \<and> draws i \<le> n - 2"
  shows "fermat_test_loop n draws i k = Inr True"
proof (induction k arbitrary: i)
  case 0
  show ?case by simp
next
  case (Suc k)
  have "gcd (draws i) n = 1"
    using draws [of i] by (intro is_prime_coprime [OF p]) auto
  then have "draws i ^ nat (n - 1) mod n = 1"
    by (rule fermat_little [OF p])
  then have "bin_pow (draws i) (n - 1) n = Inr 1"
    using n by (simp add: bin_pow_eq)
  with n Suc.IH show ?case by simp
qed

lemma fermat_test_prime:
  assumes p: "is_prime n" and n: "5 \<le> n" and draws: "\<And>i. 2 \<le> draws i \<and> draws i \<le> n - 2"
  shows "fermat_test n n_repeats draws = Inr True"
proof -
  have "\<not> 2 dvd n"
    using p n by (auto simp: is_prime_iff)
  then have "n AND 1 \<noteq> 0"
    by (simp add: and_one_eq dvd_eq_mod_eq_0)
  with n show ?thesis
    by (simp add: fermat_test_def fermat_test_loop_prime [OF p n draws])
qed

lemma fermat_test_7919:
  assumes "\<And>i. 2 \<le> draws i \<and> draws i \<le> 7917"
  shows "fermat_test 7919 50 draws = Inr True"
proof -
  have "isqrt 7919 = 88"
    by (rule isqrt_eqI) simp_all
  then have "is_prime 7919"
    by (simp add: is_prime_def)
  then show ?thesis
    using assms by (intro fermat_test_prime) simp_all
qed

text \<open>
  \<open>task5\<close> does return the first number of the interval that passes the given test, and
  \<open>-1\<close> when none does; with the test \<open>is_prime\<close> that is the smallest prime.
\<close>

lemma find_append_none: "\<forall>x\<in>set xs. \<not> P x \<Longrightarrow> find P (xs @ ys) = find P ys"
  by (induction xs) auto

lemma task5_none:
  assumes "\<And>n. a \<le> n \<Longrightarrow> n \<le> b \<Longrightarrow> \<not> check_is_prime n"
  shows "task5 a b check_is_prime = - 1"
proof -
  have "find check_is_prime [a..b] = None"
    using assms by (simp add: find_None_iff)
  then show ?thesis by (simp add: task5_def)
qed

lemma task5_first:
  assumes "a \<le> n" and "n \<le> b" and "check_is_prime n"
    and "\<And>m. a \<le> m \<Longrightarrow> m < n \<Longrightarrow> \<not> check_is_prime m"
  shows "task5 a b check_is_prime = n"
proof -
  have "[a..b] = [a..n - 1] @ n # [n + 1..b]"
    using assms(1,2) by (rule upto_split3)
  moreover have "\<forall>x\<in>set [a..n - 1]. \<not> check_is_prime x"
    using assms(4) by simp
  ultimately have "find check_is_prime [a..b] = Some n"
    using assms(3) by (simp add: find_append_none)
  then show ?thesis by (simp add: task5_def)
qed

end
